theory Spec2Isabelle
  imports Main
begin

section \<open>Grafana dashboard exporter: folder-path resolution\<close>

text \<open>
  A shallow embedding of \<^verbatim>\<open>grafana_migration/grafana_dashboard_exporter.py\<close>:
  \<^verbatim>\<open>build_folder_map\<close>, its closure \<^verbatim>\<open>get_full_path\<close> and the caller
  \<^verbatim>\<open>export_dashboards\<close>.
\<close>

subsection \<open>Data model\<close>

text \<open>
  One entry of the search listing, a JSON object read as a Python dict. The keys the
  source reads with a subscript (\<^verbatim>\<open>item['uid']\<close>, \<^verbatim>\<open>folder['title']\<close>) are
  fields that are always there; the keys it reads with \<^verbatim>\<open>.get\<close> (\<^verbatim>\<open>type\<close>,
  \<^verbatim>\<open>parentUid\<close>, \<^verbatim>\<open>folderUid\<close>) may be missing or null, which is \<open>None\<close>.
\<close>

record item =
  item_type :: "string option"
  uid :: string
  title :: string
  parentUid :: "string option"
  folderUid :: "string option"

type_synonym folder_map = "string \<rightharpoonup> item"

text \<open>
  The value under the key \<^verbatim>\<open>dashboard\<close> of a dashboard response: its title, and the
  rest of the JSON document, which the exporter only serialises.
\<close>

record dashboard =
  data_title :: string
  data_rest :: string

text \<open>
  The export acts on the world through three calls, and the model keeps the transcript of
  the calls it has made, in order:
  \<^item> \<open>Print l\<close> is \<^verbatim>\<open>print(l)\<close>;
  \<^item> \<open>Makedirs p\<close> is \<^verbatim>\<open>os.makedirs(p, exist_ok=True)\<close>;
  \<^item> \<open>Open_write p cs\<close> is the statement
    \<^verbatim>\<open>with open(p, 'w') as f: f.write(c1); f.write(c2)\<close> for the chunks \<open>cs\<close>; mode
    \<^verbatim>\<open>w\<close> creates the file or empties the one that is there.

  What a call does to the file system is the operating system's business and is not
  modelled. A call can raise; then the export stops there, for the source catches nothing.
\<close>

datatype effect =
  Print string
| Makedirs string
| Open_write string "string list"

datatype exn =
  FileExistsError
| FileNotFoundError
| IsADirectoryError
| NotADirectoryError
| PermissionError
| OSError

text \<open>
  What the script takes from outside: the global \<^verbatim>\<open>DIR\<close>, the library functions
  \<^verbatim>\<open>os.path.join\<close> and \<^verbatim>\<open>json.dumps\<close>, the answer of the server to the
  request for one dashboard by uid (\<open>None\<close> when the response has no key
  \<^verbatim>\<open>dashboard\<close>), and the operating system: whether a call raises, and what, given
  the calls made before it. They are parameters of the model.
\<close>

record env =
  DIR :: string
  os_path_join :: "string \<Rightarrow> string list \<Rightarrow> string"
  json_dumps :: "dashboard \<Rightarrow> string"
  requests_get :: "string \<Rightarrow> dashboard option"
  os_raises :: "effect list \<Rightarrow> effect \<Rightarrow> exn option"


subsection \<open>\<^verbatim>\<open>build_folder_map\<close>\<close>

text \<open>
  \<^verbatim>\<open>folders = {item['uid']: item for item in search_results
             if item.get('type') == 'dash-folder'}\<close>
  The comprehension runs over the listing in order; a later entry with the same uid
  replaces an earlier one.
\<close>

definition build_folder_map :: "item list \<Rightarrow> folder_map" where
  "build_folder_map search_results =
     foldl (\<lambda>acc it. if item_type it = Some ''dash-folder'' then acc(uid it \<mapsto> it) else acc)
       Map.empty search_results"

subsection \<open>\<^verbatim>\<open>get_full_path\<close>\<close>

text \<open>
  The variables of one call: the dict \<^verbatim>\<open>folders\<close> of the enclosing scope, and the
  locals \<^verbatim>\<open>parts\<close> and \<^verbatim>\<open>current_uid\<close>.
\<close>

record frame =
  folders :: folder_map
  parts :: "string list"
  current_uid :: "string option"

text \<open>
  \<^verbatim>\<open>while current_uid and current_uid in folders:
      folder = folders[current_uid]
      parts.insert(0, folder['title'])
      current_uid = folder.get('parentUid')\<close>
  The test \<^verbatim>\<open>current_uid\<close> is Python's truth value: \<^verbatim>\<open>None\<close> and the empty
  string are both false. The loop has no bound, so it is a partial function: \<open>None\<close>
  is a loop that never exits.
\<close>

partial_function (option) while_loop :: "frame \<Rightarrow> frame option" where
  "while_loop s =
     (case current_uid s of
        None \<Rightarrow> Some s
      | Some u \<Rightarrow>
          if u = [] then Some s
          else (case folders s u of
                  None \<Rightarrow> Some s
                | Some folder \<Rightarrow>
                    while_loop (s\<lparr>parts := title folder # parts s,
                                  current_uid := parentUid folder\<rparr>)))"

declare while_loop.simps [code]

text \<open>The list \<^verbatim>\<open>parts\<close> when the loop is left: the resolved sequence of titles.\<close>

definition get_full_path_parts :: "folder_map \<Rightarrow> string option \<Rightarrow> string list option" where
  "get_full_path_parts fs folder_uid =
     map_option parts (while_loop \<lparr>folders = fs, parts = [], current_uid = folder_uid\<rparr>)"

text \<open>\<^verbatim>\<open>return os.path.join(DIR, *parts) if parts else DIR\<close>\<close>

definition get_full_path :: "env \<Rightarrow> folder_map \<Rightarrow> string option \<Rightarrow> string option" where
  "get_full_path e fs folder_uid =
     map_option (\<lambda>ps. if ps \<noteq> [] then os_path_join e (DIR e) ps else DIR e)
       (get_full_path_parts fs folder_uid)"

subsection \<open>\<^verbatim>\<open>export_dashboards\<close>\<close>






text \<open>
  \<^verbatim>\<open>os.path.join\<close> on a POSIX system, for evaluating the model on concrete inputs: a
  component that starts with a slash replaces the path so far, any other one is appended
  after a slash, which is left out when the path so far is empty or ends with one.
\<close>

definition posix_join_step :: "string \<Rightarrow> string \<Rightarrow> string" where
  "posix_join_step path b =
     (if take 1 b = ''/'' then b
      else if path = [] \<or> last path = CHR ''/'' then path @ b
      else path @ ''/'' @ b)"

definition posix_join :: "string \<Rightarrow> string list \<Rightarrow> string" where
  "posix_join a p = foldl posix_join_step a p"

subsection \<open>The resolver as the specification words it\<close>

text \<open>
  ``Start an empty ordered sequence; set current = folderId; while current is non-null
  and present in the mapping, prepend the folder's title to the sequence and set
  current = mapping[current].parentId; stop when current is null or not found. Return
  the accumulated sequence.''
\<close>

partial_function (option) spec_walk ::
    "folder_map \<Rightarrow> string list \<Rightarrow> string option \<Rightarrow> string list option" where
  "spec_walk mapping acc current =
     (case current of
        None \<Rightarrow> Some acc
      | Some c \<Rightarrow>
          (case mapping c of
             None \<Rightarrow> Some acc
           | Some r \<Rightarrow> spec_walk mapping (title r # acc) (parentUid r)))"

declare spec_walk.simps [code]

definition spec_resolve :: "folder_map \<Rightarrow> string option \<Rightarrow> string list option" where
  "spec_resolve mapping folderId = spec_walk mapping [] folderId"

subsection \<open>Parent chains, depth and cycles\<close>

text \<open>
  \<open>is_chain fs cur c\<close>: the records \<open>c\<close> are the folder named by \<open>cur\<close>, its parent,
  and so on, up to a record whose parent is null or not in the mapping.
\<close>

fun is_chain :: "folder_map \<Rightarrow> string option \<Rightarrow> item list \<Rightarrow> bool" where
  "is_chain fs None c = (c = [])"
| "is_chain fs (Some u) [] = (fs u = None)"
| "is_chain fs (Some u) (r # c) = (fs u = Some r \<and> is_chain fs (parentUid r) c)"

text \<open>
  The depth of an item in the tree is the number of folders above it: 0 for an item at
  root level (folder id null, or naming no folder), one more than its folder's depth
  otherwise. A chain of parents with a cycle has no depth.
\<close>

inductive depth :: "folder_map \<Rightarrow> string option \<Rightarrow> nat \<Rightarrow> bool" where
  depth_null: "depth fs None 0"
| depth_absent: "fs u = None \<Longrightarrow> depth fs (Some u) 0"
| depth_step: "fs u = Some r \<Longrightarrow> depth fs (parentUid r) n \<Longrightarrow> depth fs (Some u) (Suc n)"

code_pred depth .

text \<open>\<open>parent_edge fs u v\<close>: folder \<open>u\<close> has the folder \<open>v\<close> as its parent.\<close>

definition parent_edge :: "folder_map \<Rightarrow> string \<Rightarrow> string \<Rightarrow> bool" where
  "parent_edge fs u v =
     (case fs u of None \<Rightarrow> False | Some r \<Rightarrow> parentUid r = Some v \<and> fs v \<noteq> None)"

subsection \<open>Concrete inputs\<close>

definition folder_item :: "string \<Rightarrow> string \<Rightarrow> string option \<Rightarrow> item" where
  "folder_item u t p =
     \<lparr>item_type = Some ''dash-folder'', uid = u, title = t, parentUid = p, folderUid = None\<rparr>"

definition dash_item :: "string \<Rightarrow> string \<Rightarrow> string option \<Rightarrow> item" where
  "dash_item u t f =
     \<lparr>item_type = Some ''dash-db'', uid = u, title = t, parentUid = None, folderUid = f\<rparr>"

text \<open>\<^verbatim>\<open>A(parent=null) <- B(parent=A) <- C(parent=B)\<close>\<close>

definition chain_abc :: "item list" where
  "chain_abc =
     [folder_item ''A'' ''A'' None, folder_item ''B'' ''B'' (Some ''A''),
      folder_item ''C'' ''C'' (Some ''B'')]"

text \<open>\<^verbatim>\<open>A(parent=B), B(parent=A)\<close>\<close>

definition two_cycle :: "item list" where
  "two_cycle = [folder_item ''A'' ''A'' (Some ''B''), folder_item ''B'' ''B'' (Some ''A'')]"

text \<open>\<^verbatim>\<open>A(parent=A)\<close>\<close>

definition self_cycle :: "item list" where
  "self_cycle = [folder_item ''A'' ''A'' (Some ''A'')]"

text \<open>A folder whose uid is the empty string, under a parent \<^verbatim>\<open>X\<close> that is not listed.\<close>

definition empty_uid :: "item list" where
  "empty_uid = [folder_item '''' ''T'' (Some ''X'')]"

text \<open>\<^verbatim>\<open>B(parent=X)\<close> with no \<^verbatim>\<open>X\<close>, and \<^verbatim>\<open>C(parent=B)\<close>\<close>

definition orphan :: "item list" where
  "orphan = [folder_item ''B'' ''B'' (Some ''X''), folder_item ''C'' ''C'' (Some ''B'')]"

text \<open>
  Two dashboards at root level with the same title, the server's answers, and an
  operating system on which no call raises.
\<close>

definition twins :: "item list" where
  "twins = [dash_item ''d1'' ''Load'' None, dash_item ''d2'' ''Load'' None]"

definition twins_env :: env where
  "twins_env =
     \<lparr>DIR = ''out'', os_path_join = posix_join, json_dumps = data_rest,
      requests_get = (\<lambda>u. if u = ''d1'' then Some \<lparr>data_title = ''Load'', data_rest = ''one''\<rparr>
                          else if u = ''d2'' then Some \<lparr>data_title = ''Load'', data_rest = ''two''\<rparr>
                          else None),
      os_raises = (\<lambda>t ev. None)\<rparr>"

section \<open>Properties of the loop\<close>

lemma while_loop_null:
  "while_loop \<lparr>folders = fs, parts = ps, current_uid = None\<rparr>
     = Some \<lparr>folders = fs, parts = ps, current_uid = None\<rparr>"
  by (subst while_loop.simps) simp

lemma while_loop_absent:
  "fs u = None \<Longrightarrow>
   while_loop \<lparr>folders = fs, parts = ps, current_uid = Some u\<rparr>
     = Some \<lparr>folders = fs, parts = ps, current_uid = Some u\<rparr>"
  by (subst while_loop.simps) simp

lemma while_loop_empty:
  "while_loop \<lparr>folders = fs, parts = ps, current_uid = Some []\<rparr>
     = Some \<lparr>folders = fs, parts = ps, current_uid = Some []\<rparr>"
  by (subst while_loop.simps) simp

lemma while_loop_step:
  "u \<noteq> [] \<Longrightarrow> fs u = Some r \<Longrightarrow>
   while_loop \<lparr>folders = fs, parts = ps, current_uid = Some u\<rparr>
     = while_loop \<lparr>folders = fs, parts = title r # ps, current_uid = parentUid r\<rparr>"
  by (subst while_loop.simps) simp

text \<open>The loop never writes \<^verbatim>\<open>folders\<close>.\<close>

lemma while_loop_folders:
  assumes "while_loop s = Some s'"
  shows "folders s' = folders s"
proof (rule while_loop.raw_induct [where P = "\<lambda>s s'. folders s' = folders s", OF _ assms])
  fix loop :: "frame \<Rightarrow> frame option" and s s'
  assume IH: "\<And>s s'. loop s = Some s' \<Longrightarrow> folders s' = folders s"
  assume "(case current_uid s of
        None \<Rightarrow> Some s
      | Some u \<Rightarrow>
          if u = [] then Some s
          else (case folders s u of
                  None \<Rightarrow> Some s
                | Some folder \<Rightarrow>
                    loop (s\<lparr>parts := title folder # parts s,
                                  current_uid := parentUid folder\<rparr>))) = Some s'"
  then show "folders s' = folders s"
    by (auto split: option.splits if_splits dest: IH)
qed

text \<open>
  When no folder has the empty string as uid, the loop walks a whole chain of parents and
  leaves with the titles of the chain, the root's first.
\<close>

lemma while_loop_chain_end:
  "[] \<notin> dom fs \<Longrightarrow> is_chain fs cur c \<Longrightarrow>
   while_loop \<lparr>folders = fs, parts = ps, current_uid = cur\<rparr>
     = Some \<lparr>folders = fs, parts = rev (map title c) @ ps,
             current_uid = (if c = [] then cur else parentUid (last c))\<rparr>"
proof (induction c arbitrary: cur ps)
  case Nil
  then show ?case
    by (cases cur) (simp_all add: while_loop_null while_loop_absent)
next
  case (Cons r c)
  then obtain u where u: "cur = Some u" "fs u = Some r" "is_chain fs (parentUid r) c"
    by (cases cur) auto
  with Cons.prems have "u \<noteq> []" by auto
  with u Cons.IH [OF Cons.prems(1) u(3), of "title r # ps"] show ?case
    by (simp add: while_loop_step)
qed

lemma depth_chain: "depth fs cur n \<Longrightarrow> \<exists>c. is_chain fs cur c \<and> length c = n"
proof (induction rule: depth.induct)
  case (depth_step fs u r n)
  then obtain c where "is_chain fs (parentUid r) c" "length c = n" by blast
  with depth_step.hyps(1) have "is_chain fs (Some u) (r # c) \<and> length (r # c) = Suc n"
    by simp
  then show ?case by blast
qed auto

text \<open>A chain of parents that ends is walked to its end, or to an empty uid before it.\<close>

lemma while_loop_terminates:
  "depth fs cur n \<Longrightarrow> \<exists>s'. while_loop \<lparr>folders = fs, parts = ps, current_uid = cur\<rparr> = Some s'"
proof (induction arbitrary: ps rule: depth.induct)
  case (depth_null fs)
  then show ?case by (simp add: while_loop_null)
next
  case (depth_absent fs u)
  then show ?case by (simp add: while_loop_absent)
next
  case (depth_step fs u r n)
  show ?case
  proof (cases "u = []")
    case True
    then show ?thesis by (simp add: while_loop_empty)
  next
    case False
    with depth_step.hyps(1) depth_step.IH [of "title r # ps"] show ?thesis
      by (simp add: while_loop_step)
  qed
qed

text \<open>
  A set of non-empty uids, each of a folder whose parent is in the set again, is never
  left: from there the loop does not return.
\<close>

lemma while_loop_diverges:
  assumes closed: "\<And>u. u \<in> S \<Longrightarrow> u \<noteq> [] \<and> (\<exists>r v. fs u = Some r \<and> parentUid r = Some v \<and> v \<in> S)"
    and start: "u \<in> S"
  shows "while_loop \<lparr>folders = fs, parts = ps, current_uid = Some u\<rparr> = None"
proof (rule ccontr)
  assume "while_loop \<lparr>folders = fs, parts = ps, current_uid = Some u\<rparr> \<noteq> None"
  then obtain s' where ret: "while_loop \<lparr>folders = fs, parts = ps, current_uid = Some u\<rparr> = Some s'"
    by blast
  have "\<not> (folders \<lparr>folders = fs, parts = ps, current_uid = Some u\<rparr> = fs
          \<and> (\<exists>v \<in> S. current_uid \<lparr>folders = fs, parts = ps, current_uid = Some u\<rparr> = Some v))"
  proof (rule while_loop.raw_induct
      [where P = "\<lambda>s s'. \<not> (folders s = fs \<and> (\<exists>v \<in> S. current_uid s = Some v))", OF _ ret])
    fix loop :: "frame \<Rightarrow> frame option" and s s'
    assume IH: "\<And>s s'. loop s = Some s' \<Longrightarrow> \<not> (folders s = fs \<and> (\<exists>v \<in> S. current_uid s = Some v))"
    assume body: "(case current_uid s of
        None \<Rightarrow> Some s
      | Some u \<Rightarrow>
          if u = [] then Some s
          else (case folders s u of
                  None \<Rightarrow> Some s
                | Some folder \<Rightarrow>
                    loop (s\<lparr>parts := title folder # parts s,
                                  current_uid := parentUid folder\<rparr>))) = Some s'"
    show "\<not> (folders s = fs \<and> (\<exists>v \<in> S. current_uid s = Some v))"
    proof
      assume "folders s = fs \<and> (\<exists>v \<in> S. current_uid s = Some v)"
      then obtain v where v: "folders s = fs" "v \<in> S" "current_uid s = Some v"
        by blast
      from closed [OF v(2)] obtain r w where
        w: "v \<noteq> []" "fs v = Some r" "parentUid r = Some w" "w \<in> S"
        by blast
      from body v w have "loop (s\<lparr>parts := title r # parts s, current_uid := Some w\<rparr>) = Some s'"
        by simp
      from IH [OF this] v(1) w(4) show False
        by simp
    qed
  qed
  with start show False
    by simp
qed

text \<open>
  The loop and the walk of the specification, run on the mapping without the empty uid,
  return the same sequences.
\<close>

lemma while_loop_spec_walk:
  assumes "while_loop s = Some s'"
  shows "spec_walk (folders s |` {u. u \<noteq> []}) (parts s) (current_uid s) = Some (parts s')"
proof (rule while_loop.raw_induct
    [where P = "\<lambda>s s'. spec_walk (folders s |` {u. u \<noteq> []}) (parts s) (current_uid s) = Some (parts s')",
     OF _ assms])
  fix loop :: "frame \<Rightarrow> frame option" and s s'
  assume IH: "\<And>s s'. loop s = Some s' \<Longrightarrow>
    spec_walk (folders s |` {u. u \<noteq> []}) (parts s) (current_uid s) = Some (parts s')"
  assume body: "(case current_uid s of
        None \<Rightarrow> Some s
      | Some u \<Rightarrow>
          if u = [] then Some s
          else (case folders s u of
                  None \<Rightarrow> Some s
                | Some folder \<Rightarrow>
                    loop (s\<lparr>parts := title folder # parts s,
                                  current_uid := parentUid folder\<rparr>))) = Some s'"
  show "spec_walk (folders s |` {u. u \<noteq> []}) (parts s) (current_uid s) = Some (parts s')"
  proof (cases "current_uid s")
    case None
    with body show ?thesis
      by (subst spec_walk.simps) auto
  next
    case (Some u)
    show ?thesis
    proof (cases "u = [] \<or> folders s u = None")
      case True
      with body Some show ?thesis
        by (subst spec_walk.simps) (auto simp: restrict_map_def)
    next
      case False
      then obtain r where r: "u \<noteq> []" "folders s u = Some r"
        by auto
      with body Some have "loop (s\<lparr>parts := title r # parts s, current_uid := parentUid r\<rparr>) = Some s'"
        by simp
      from IH [OF this] r Some show ?thesis
        by (subst spec_walk.simps) (simp add: restrict_map_def)
    qed
  qed
qed

lemma spec_walk_while_loop:
  assumes "spec_walk m acc cur = Some res"
  shows "m = fs |` {u. u \<noteq> []} \<longrightarrow>
    map_option parts (while_loop \<lparr>folders = fs, parts = acc, current_uid = cur\<rparr>) = Some res"
proof (rule spec_walk.raw_induct
    [where P = "\<lambda>m acc cur res. m = fs |` {u. u \<noteq> []} \<longrightarrow>
       map_option parts (while_loop \<lparr>folders = fs, parts = acc, current_uid = cur\<rparr>) = Some res",
     OF _ assms])
  fix walk :: "folder_map \<Rightarrow> string list \<Rightarrow> string option \<Rightarrow> string list option"
    and m acc cur res
  assume IH: "\<And>m acc cur res. walk m acc cur = Some res \<Longrightarrow> m = fs |` {u. u \<noteq> []} \<longrightarrow>
       map_option parts (while_loop \<lparr>folders = fs, parts = acc, current_uid = cur\<rparr>) = Some res"
  assume body: "(case cur of
        None \<Rightarrow> Some acc
      | Some c \<Rightarrow>
          (case m c of
             None \<Rightarrow> Some acc
           | Some r \<Rightarrow> walk m (title r # acc) (parentUid r))) = Some res"
  show "m = fs |` {u. u \<noteq> []} \<longrightarrow>
       map_option parts (while_loop \<lparr>folders = fs, parts = acc, current_uid = cur\<rparr>) = Some res"
  proof
    assume m: "m = fs |` {u. u \<noteq> []}"
    show "map_option parts (while_loop \<lparr>folders = fs, parts = acc, current_uid = cur\<rparr>) = Some res"
    proof (cases cur)
      case None
      with body show ?thesis by (simp add: while_loop_null)
    next
      case (Some c)
      show ?thesis
      proof (cases "m c")
        case None
        with body Some have res: "res = acc" by simp
        from None m have "c = [] \<or> fs c = None"
          by (auto simp: restrict_map_def split: if_splits)
        with Some res show ?thesis
          by (auto simp: while_loop_empty while_loop_absent)
      next
        case (Some r)
        with m have c: "c \<noteq> []" "fs c = Some r"
          by (auto simp: restrict_map_def split: if_splits)
        from body \<open>cur = Some c\<close> Some have "walk m (title r # acc) (parentUid r) = Some res"
          by simp
        from IH [OF this] m c \<open>cur = Some c\<close> show ?thesis
          by (simp add: while_loop_step)
      qed
    qed
  qed
qed


lemmas inputs = build_folder_map_def folder_item_def dash_item_def chain_abc_def two_cycle_def
  self_cycle_def empty_uid_def orphan_def twins_def

lemma depth_abc_C: "depth (build_folder_map chain_abc) (Some ''C'') 3"
  unfolding numeral_3_eq_3
  by (rule depth.intros | simp add: inputs)+

section \<open>The claims\<close>

subsection \<open>C1\<close>

text \<open>
  C1: the specification's algorithm for resolve is: start from the empty sequence with
  current = folderId; while current is non-null and present in the mapping, prepend the
  folder's title and move to its parentId; stop when current is null or not found; return
  the sequence. The source also stops at a current id that is the empty string, which
  Python's truth test rejects like null, so the two differ on a mapping that has a folder
  with the empty uid. Amended: for every mapping and every folder id, resolve follows the
  algorithm with "non-null" read as "neither null nor the empty string", which is the
  algorithm run on the mapping without an entry for the empty uid.
\<close>

theorem resolve_refines_spec_resolve:
  "get_full_path_parts fs folder_uid = spec_resolve (fs |` {u. u \<noteq> []}) folder_uid"
proof (cases "while_loop \<lparr>folders = fs, parts = [], current_uid = folder_uid\<rparr>")
  case None
  have "spec_walk (fs |` {u. u \<noteq> []}) [] folder_uid = None"
  proof (rule ccontr)
    assume "spec_walk (fs |` {u. u \<noteq> []}) [] folder_uid \<noteq> None"
    then obtain res where "spec_walk (fs |` {u. u \<noteq> []}) [] folder_uid = Some res"
      by blast
    from spec_walk_while_loop [OF this, of fs] None show False
      by simp
  qed
  with None show ?thesis
    by (simp add: get_full_path_parts_def spec_resolve_def)
next
  case (Some s')
  from while_loop_spec_walk [OF this] Some show ?thesis
    by (simp add: get_full_path_parts_def spec_resolve_def)
qed

theorem spec_resolve_differs_at_empty_uid:
  "get_full_path_parts (build_folder_map empty_uid) (Some '''') = Some [] \<and>
   spec_resolve (build_folder_map empty_uid) (Some '''') = Some [''T'']"
  by (simp add: inputs get_full_path_parts_def spec_resolve_def while_loop.simps spec_walk.simps)

subsection \<open>C2\<close>

text \<open>
  C2: on a mapping with a cycle of parents reachable from the queried id, the
  specification wants resolve to raise CycleDetected. The source has no such check: on the
  2-cycle \<^verbatim>\<open>A(parent=B), B(parent=A)\<close> the call never returns, and it raises nothing.
  Amended: for every mapping in which no folder has the empty uid, if a cycle of parent
  links is reachable from the queried id, resolve of that id does not return.
\<close>

theorem cycle_never_returns:
  assumes ids: "[] \<notin> dom fs"
    and reach: "(parent_edge fs)\<^sup>*\<^sup>* q c"
    and cycle: "(parent_edge fs)\<^sup>+\<^sup>+ c c"
  shows "get_full_path_parts fs (Some q) = None"
proof -
  let ?S = "{v. (parent_edge fs)\<^sup>*\<^sup>* q v \<and> (parent_edge fs)\<^sup>*\<^sup>* v c}"
  have closed: "v \<noteq> [] \<and> (\<exists>r w. fs v = Some r \<and> parentUid r = Some w \<and> w \<in> ?S)" if "v \<in> ?S" for v
  proof -
    from that have qv: "(parent_edge fs)\<^sup>*\<^sup>* q v" and vc: "(parent_edge fs)\<^sup>*\<^sup>* v c"
      by auto
    from vc cycle have "(parent_edge fs)\<^sup>+\<^sup>+ v c"
      by (rule rtranclp_tranclp_tranclp)
    then obtain w where vw: "parent_edge fs v w" and wc: "(parent_edge fs)\<^sup>*\<^sup>* w c"
      by (auto dest: tranclpD)
    from vw obtain r where r: "fs v = Some r" "parentUid r = Some w"
      by (auto simp: parent_edge_def split: option.splits)
    from r(1) ids have "v \<noteq> []" by auto
    moreover from qv vw wc have "w \<in> ?S" by auto
    ultimately show ?thesis using r by blast
  qed
  from reach have "q \<in> ?S" by auto
  from while_loop_diverges [of ?S fs q "[]", OF closed this] show ?thesis
    by (simp add: get_full_path_parts_def)
qed

theorem cycle_never_returns_witness:
  "[] \<notin> dom (build_folder_map two_cycle) \<and>
   (parent_edge (build_folder_map two_cycle))\<^sup>*\<^sup>* ''B'' ''A'' \<and>
   (parent_edge (build_folder_map two_cycle))\<^sup>+\<^sup>+ ''A'' ''A'' \<and>
   get_full_path_parts (build_folder_map two_cycle) (Some ''B'') = None"
proof -
  have ids: "[] \<notin> dom (build_folder_map two_cycle)"
    by (simp add: inputs)
  have ab: "parent_edge (build_folder_map two_cycle) ''A'' ''B''"
    and ba: "parent_edge (build_folder_map two_cycle) ''B'' ''A''"
    by (simp_all add: parent_edge_def inputs)
  from ba have reach: "(parent_edge (build_folder_map two_cycle))\<^sup>*\<^sup>* ''B'' ''A''"
    by (rule r_into_rtranclp)
  from ab ba have cycle: "(parent_edge (build_folder_map two_cycle))\<^sup>+\<^sup>+ ''A'' ''A''"
    by (rule tranclp.trancl_into_trancl [OF tranclp.r_into_trancl])
  from cycle_never_returns [OF ids reach cycle] ids reach cycle show ?thesis
    by simp
qed

theorem two_cycle_never_returns:
  "get_full_path_parts (build_folder_map two_cycle) (Some ''A'') = None"
proof -
  have "while_loop \<lparr>folders = build_folder_map two_cycle, parts = [], current_uid = Some ''A''\<rparr> = None"
    by (rule while_loop_diverges [where S = "{''A'', ''B''}"]) (auto simp: inputs)
  then show ?thesis
    by (simp add: get_full_path_parts_def)
qed

subsection \<open>C3\<close>

text \<open>
  C3: the specification wants resolve to terminate on every mapping, cyclic ones too. It
  does not on \<^verbatim>\<open>A(parent=A)\<close>. Amended: for every mapping and every folder id whose
  chain of parents ends (at a null parent or at an id that is not in the mapping, that is,
  whenever the id has a depth), resolve returns a sequence.
\<close>

theorem finite_chain_terminates:
  "depth fs folder_uid n \<Longrightarrow> \<exists>ps. get_full_path_parts fs folder_uid = Some ps"
  using while_loop_terminates [of fs folder_uid n "[]"]
  by (auto simp: get_full_path_parts_def)

theorem finite_chain_terminates_witness:
  "depth (build_folder_map chain_abc) (Some ''C'') 3 \<and>
   (\<exists>ps. get_full_path_parts (build_folder_map chain_abc) (Some ''C'') = Some ps)"
  using finite_chain_terminates [OF depth_abc_C] depth_abc_C by simp

theorem self_cycle_never_returns:
  "get_full_path_parts (build_folder_map self_cycle) (Some ''A'') = None"
proof -
  have "while_loop \<lparr>folders = build_folder_map self_cycle, parts = [], current_uid = Some ''A''\<rparr> = None"
    by (rule while_loop_diverges [where S = "{''A''}"]) (auto simp: inputs)
  then show ?thesis
    by (simp add: get_full_path_parts_def)
qed

subsection \<open>C4\<close>

text \<open>
  C4: for the chain \<^verbatim>\<open>A(parent=null) <- B(parent=A) <- C(parent=B)\<close> the
  specification gives resolve("C") as ["A", "B"]. The walk starts by prepending the title
  of the queried folder itself, so, amended: resolve("C") is ["A", "B", "C"], and
  ["A", "B"] is resolve("B"), the sequence of an item whose folder id is "B".
\<close>

theorem chain_abc_resolved:
  "get_full_path_parts (build_folder_map chain_abc) (Some ''C'') = Some [''A'', ''B'', ''C''] \<and>
   get_full_path_parts (build_folder_map chain_abc) (Some ''B'') = Some [''A'', ''B'']"
  by (simp add: inputs get_full_path_parts_def while_loop.simps)

theorem chain_abc_not_A_B:
  "get_full_path_parts (build_folder_map chain_abc) (Some ''C'') \<noteq> Some [''A'', ''B'']"
  by (simp add: inputs get_full_path_parts_def while_loop.simps)

subsection \<open>C5\<close>

text \<open>
  C5: when a record's parentId names an id \<open>x\<close> that is not in the mapping, resolve
  of a descendant \<open>d\<close> of that record (or of the record itself) stops the walk at \<open>x\<close>
  and returns exactly the titles gathered up to there. Here \<open>c\<close> is the chain of
  records from \<open>d\<close> up to the record with the dangling parent \<open>x\<close>, where it ends
  because \<open>x\<close> is not in the mapping. As worded the claim
  fails when a folder on the chain has the empty uid, where the walk stops earlier.
  Amended: the claim holds for every mapping in which no folder has the empty string as
  uid; the loop is left with current = \<open>x\<close> and the titles of the chain.
\<close>

theorem dangling_parent_ends_walk:
  assumes "[] \<notin> dom fs"
    and "is_chain fs (Some d) c"
    and "c \<noteq> []"
    and "parentUid (last c) = Some x"
  shows "fs x = None \<and>
    while_loop \<lparr>folders = fs, parts = [], current_uid = Some d\<rparr>
      = Some \<lparr>folders = fs, parts = rev (map title c), current_uid = Some x\<rparr> \<and>
    get_full_path_parts fs (Some d) = Some (rev (map title c))"
proof -
  have "is_chain fs cur c \<Longrightarrow> c \<noteq> [] \<Longrightarrow> parentUid (last c) = Some x \<Longrightarrow> fs x = None" for cur
    by (induction c arbitrary: cur) (auto split: option.splits if_splits elim: is_chain.elims)
  with assms have "fs x = None" by blast
  with while_loop_chain_end [OF assms(1,2), of "[]"] assms(3,4) show ?thesis
    by (simp add: get_full_path_parts_def)
qed

theorem dangling_parent_ends_walk_witness:
  "[] \<notin> dom (build_folder_map orphan) \<and>
   is_chain (build_folder_map orphan) (Some ''C'')
     [folder_item ''C'' ''C'' (Some ''B''), folder_item ''B'' ''B'' (Some ''X'')] \<and>
   build_folder_map orphan ''X'' = None \<and>
   get_full_path_parts (build_folder_map orphan) (Some ''C'') = Some [''B'', ''C'']"
  using dangling_parent_ends_walk [of "build_folder_map orphan" "''C''"
      "[folder_item ''C'' ''C'' (Some ''B''), folder_item ''B'' ''B'' (Some ''X'')]" "''X''"]
  by (simp add: inputs)

theorem dangling_parent_at_empty_uid:
  "is_chain (build_folder_map empty_uid) (Some '''') [folder_item '''' ''T'' (Some ''X'')] \<and>
   parentUid (last [folder_item '''' ''T'' (Some ''X'')]) = Some ''X'' \<and>
   build_folder_map empty_uid ''X'' = None \<and>
   rev (map title [folder_item '''' ''T'' (Some ''X'')]) = [''T''] \<and>
   get_full_path_parts (build_folder_map empty_uid) (Some '''') = Some []"
  by (simp add: inputs get_full_path_parts_def while_loop.simps)

subsection \<open>C6\<close>

text \<open>
  C6: in a hierarchy with no cycle, the sequence resolve returns for a leaf item's folder
  id is as long as the leaf's depth in the tree; a leaf with a null folder id has depth 0.
  As worded the claim fails for a leaf in a folder whose uid is the empty string: the
  folder counts in the depth and not in the sequence. Amended: the claim holds for every
  mapping in which no folder has the empty string as uid.
\<close>

theorem length_parts_is_depth:
  assumes "[] \<notin> dom fs" and "depth fs (folderUid leaf) n"
  shows "\<exists>ps. get_full_path_parts fs (folderUid leaf) = Some ps \<and> length ps = n"
proof -
  from depth_chain [OF assms(2)] obtain c where "is_chain fs (folderUid leaf) c" "length c = n"
    by blast
  with while_loop_chain_end [OF assms(1) this(1), of "[]"] show ?thesis
    by (simp add: get_full_path_parts_def)
qed

theorem length_parts_is_depth_witness:
  "[] \<notin> dom (build_folder_map chain_abc) \<and>
   depth (build_folder_map chain_abc) (folderUid (dash_item ''d'' ''D'' (Some ''B''))) 2 \<and>
   (\<exists>ps. get_full_path_parts (build_folder_map chain_abc) (folderUid (dash_item ''d'' ''D'' (Some ''B''))) = Some ps
      \<and> length ps = 2)"
proof -
  have ids: "[] \<notin> dom (build_folder_map chain_abc)"
    by (simp add: inputs)
  have "depth (build_folder_map chain_abc) (Some ''B'') (Suc (Suc 0))"
    by (rule depth.intros | simp add: inputs)+
  then have d: "depth (build_folder_map chain_abc) (folderUid (dash_item ''d'' ''D'' (Some ''B''))) 2"
    by (simp add: dash_item_def numeral_2_eq_2)
  from length_parts_is_depth [OF ids d] ids d show ?thesis
    by simp
qed

theorem length_parts_not_depth_at_empty_uid:
  "depth (build_folder_map empty_uid) (folderUid (dash_item ''d'' ''D'' (Some ''''))) (Suc 0) \<and>
   get_full_path_parts (build_folder_map empty_uid) (folderUid (dash_item ''d'' ''D'' (Some ''''))) = Some []"
proof -
  have "depth (build_folder_map empty_uid) (Some '''') (Suc 0)"
    by (rule depth.intros | simp add: inputs)+
  then show ?thesis
    by (simp add: inputs get_full_path_parts_def while_loop.simps)
qed

subsection \<open>C7\<close>

text \<open>
  C7: for every folder mapping, resolving the null folder id returns the empty sequence
  (root level).
\<close>

theorem resolve_null: "get_full_path_parts fs None = Some []"
  by (simp add: get_full_path_parts_def while_loop_null)

subsection \<open>C8\<close>

text \<open>
  C8: resolve is deterministic and changes no state: a call that returns leaves the
  mapping as it was, and a second call with the same id on the mapping as the first call
  left it returns the same sequence.
\<close>

theorem resolve_keeps_folders:
  assumes "while_loop \<lparr>folders = fs, parts = [], current_uid = folder_uid\<rparr> = Some s'"
  shows "folders s' = fs \<and> get_full_path_parts (folders s') folder_uid = Some (parts s')"
  using assms while_loop_folders [OF assms]
  by (simp add: get_full_path_parts_def)

theorem resolve_keeps_folders_witness:
  "while_loop \<lparr>folders = build_folder_map chain_abc, parts = [], current_uid = Some ''B''\<rparr>
     = Some \<lparr>folders = build_folder_map chain_abc, parts = [''A'', ''B''], current_uid = None\<rparr> \<and>
   get_full_path_parts (build_folder_map chain_abc) (Some ''B'') = Some [''A'', ''B'']"
proof -
  have run: "while_loop \<lparr>folders = build_folder_map chain_abc, parts = [], current_uid = Some ''B''\<rparr>
     = Some \<lparr>folders = build_folder_map chain_abc, parts = [''A'', ''B''], current_uid = None\<rparr>"
    by (simp add: inputs while_loop.simps)
  from resolve_keeps_folders [OF run] run show ?thesis
    by simp
qed

subsection \<open>C9\<close>




subsection \<open>C10\<close>

text \<open>
  C10: for every mapping and every non-null queried id that is not in the mapping,
  resolve returns the empty sequence, so the path is the root output directory, the same
  as for the null id.
\<close>

theorem resolve_unknown_uid:
  assumes "fs u = None"
  shows "get_full_path_parts fs (Some u) = Some [] \<and>
    get_full_path e fs (Some u) = Some (DIR e) \<and>
    get_full_path e fs (Some u) = get_full_path e fs None"
  using assms
  by (simp add: get_full_path_def get_full_path_parts_def while_loop_absent while_loop_null)

theorem resolve_unknown_uid_witness:
  "build_folder_map chain_abc ''Z'' = None \<and>
   get_full_path_parts (build_folder_map chain_abc) (Some ''Z'') = Some [] \<and>
   get_full_path twins_env (build_folder_map chain_abc) (Some ''Z'') = Some ''out'' \<and>
   get_full_path twins_env (build_folder_map chain_abc) (Some ''Z'')
     = get_full_path twins_env (build_folder_map chain_abc) None"
proof -
  have absent: "build_folder_map chain_abc ''Z'' = None"
    by (simp add: inputs)
  have dir: "DIR twins_env = ''out''"
    by (simp add: twins_env_def)
  from resolve_unknown_uid [of "build_folder_map chain_abc" "''Z''" twins_env, OF absent]
  have "get_full_path_parts (build_folder_map chain_abc) (Some ''Z'') = Some []"
    and "get_full_path twins_env (build_folder_map chain_abc) (Some ''Z'') = Some (DIR twins_env)"
    and "get_full_path twins_env (build_folder_map chain_abc) (Some ''Z'')
      = get_full_path twins_env (build_folder_map chain_abc) None"
    by blast+
  with absent dir show ?thesis
    by metis
qed

end
